theory Spec2Isabelle
  imports Main "HOL-Library.Sublist" "HOL-Library.Multiset" "HOL-Library.AList"
begin

section \<open>Authority graph builder: the values it handles\<close>

text \<open>
  The builder is JavaScript. An event is a plain object whose properties are read with
  \<open>event.name\<close>; a property that is absent reads as \<open>undefined\<close>. A property is modelled
  by \<open>'a jsprop\<close>: \<open>Undefined\<close> (absent, or explicitly undefined), \<open>Null\<close>, or a value of
  the type the input contract gives the field (a string, an integer Number, or for
  \<open>amount\<close> a string or a Number). Strings are ASCII character lists. The Numbers of
  \<open>block\<close>, \<open>timestamp\<close> and \<open>log_index\<close> are integers (block heights, unix seconds, log
  positions) in the range where Number arithmetic is exact, on which \<open>Number(x)\<close> is the
  identity. The Number of an \<open>amount\<close> is only ever turned into a string; it is a value
  of a type \<open>'n\<close> that is left open, and the function that prints it (\<open>Number::toString\<close>
  of the host) is a parameter \<open>nts\<close> of the model. Every element of an event array is an
  object.
\<close>

datatype 'a jsprop = Undefined | Null | Val 'a

datatype 'n scalar = Str string | Num 'n

record 'n event =
  wallet :: "string jsprop"
  contract :: "string jsprop"
  authority_type :: "string jsprop"
  target_entity :: "string jsprop"
  amount :: "'n scalar jsprop"
  block :: "int jsprop"
  timestamp :: "int jsprop"
  tx_hash :: "string jsprop"
  log_index :: "int jsprop"

text \<open>The argument of the builder: an array of events, or some value that is no array.\<close>

datatype 'n argument = Array "'n event list" | NonArray "'n scalar jsprop"

text \<open>
  An edge as the object literal in the loop builds it. The two optional properties are
  added only under their guards, so they are \<open>None\<close> when the edge has no such property.
\<close>

record edge =
  type :: string
  contract :: string
  target_entity :: string
  amount :: string
  block :: int
  timestamp :: int
  revocation_possible :: string
  tx_hash :: "string option"
  log_index :: "int option"

record wallet_graph =
  wallet :: string
  authority_edges :: "edge list"

text \<open>Every failure of the source is a thrown \<open>Error\<close> with a message, or a \<open>TypeError\<close>
  raised by the runtime.\<close>

datatype error = Error string | TypeError string

subsection \<open>Strings\<close>

text \<open>
  The decimal notation of an integer: its digits, with a minus sign if negative. It states
  which number the constant of \<open>normalizeAmount\<close> denotes, and it is the printing function
  of the examples, whose Numbers are integers of absolute value at most \<open>2^53\<close>; on
  those \<open>String(n)\<close> is the decimal notation.
\<close>

definition digit_char :: "nat \<Rightarrow> char" where
  "digit_char d = ''0123456789'' ! d"

function digits :: "nat \<Rightarrow> string" where
  "digits n = (if n < 10 then [digit_char n] else digits (n div 10) @ [digit_char (n mod 10)])"
  by pat_completeness auto
termination
  by (relation "measure id") auto

declare digits.simps [simp del]

definition decimal :: "int \<Rightarrow> string" where
  "decimal n = (if n < 0 then CHR ''-'' # digits (nat (- n)) else digits (nat n))"

text \<open>\<open>String(amount)\<close> for a value that is neither null nor undefined: a string is
  returned as it is, a Number is printed by the host.\<close>

definition String :: "('n \<Rightarrow> string) \<Rightarrow> 'n scalar \<Rightarrow> string" where
  "String nts v = (case v of Str s \<Rightarrow> s | Num n \<Rightarrow> nts n)"

text \<open>\<open>toUpperCase\<close> on ASCII: the letters a to z move to A to Z, nothing else changes.\<close>

definition upper_char :: "char \<Rightarrow> char" where
  "upper_char c =
     (case map_of (zip ''abcdefghijklmnopqrstuvwxyz'' ''ABCDEFGHIJKLMNOPQRSTUVWXYZ'') c of
        Some u \<Rightarrow> u
      | None \<Rightarrow> c)"

definition toUpperCase :: "string \<Rightarrow> string" where
  "toUpperCase s = map upper_char s"

text \<open>\<open>s.includes(t)\<close>: \<open>t\<close> occurs in \<open>s\<close> at some position.\<close>

fun includes_str :: "string \<Rightarrow> string \<Rightarrow> bool" where
  "includes_str [] t = (t = [])"
| "includes_str (c # s) t = (prefix t (c # s) \<or> includes_str s t)"

subsection \<open>normalizeAmount\<close>

definition MAX_UINT256 :: string where
  "MAX_UINT256 = ''115792089237316195423570985008687907853269984665640564039457584007913129639935''"

definition normalizeAmount :: "('n \<Rightarrow> string) \<Rightarrow> 'n scalar jsprop \<Rightarrow> string" where
  "normalizeAmount nts raw =
     (case raw of
        Null \<Rightarrow> ''unlimited''
      | Undefined \<Rightarrow> ''unlimited''
      | Val v \<Rightarrow>
          (let amountStr = toUpperCase (String nts v) in
           if amountStr = ''MAX_UINT'' \<or> amountStr = ''UNLIMITED'' \<or> includes_str amountStr MAX_UINT256
           then ''unlimited''
           else if amountStr = ''0'' then ''0''
           else String nts v))"

section \<open>buildAuthorityGraph\<close>

subsection \<open>Objects used as dictionaries\<close>

text \<open>
  \<open>walletGroups\<close> and \<open>results\<close> are object literals \<open>{}\<close> used as dictionaries. Their own
  properties are an association list in insertion order, with distinct keys. A read
  \<open>obj[k]\<close> that finds no own property goes on to \<open>Object.prototype\<close>, whose properties
  (all of them functions or objects, hence truthy, and none of them with a \<open>push\<close>
  method) are listed here. \<open>for ... in\<close> and \<open>Object.keys\<close> see own properties only; the
  order in which they enumerate integer-like keys is not modelled.
\<close>

type_synonym 'a js_object = "(string \<times> 'a) list"

definition object_prototype_keys :: "string list" where
  "object_prototype_keys =
     [''constructor'', ''__defineGetter__'', ''__defineSetter__'', ''hasOwnProperty'',
      ''__lookupGetter__'', ''__lookupSetter__'', ''isPrototypeOf'', ''propertyIsEnumerable'',
      ''toString'', ''valueOf'', ''__proto__'', ''toLocaleString'']"

datatype 'a property = Own 'a | Inherited | NoProperty

definition get_property :: "'a js_object \<Rightarrow> string \<Rightarrow> 'a property" where
  "get_property obj k =
     (case map_of obj k of
        Some v \<Rightarrow> Own v
      | None \<Rightarrow> if k \<in> set object_prototype_keys then Inherited else NoProperty)"

definition Object_keys :: "'a js_object \<Rightarrow> string list" where
  "Object_keys obj = map fst obj"

subsection \<open>Validation and the edge literal\<close>

definition missing_field :: "string \<Rightarrow> error" where
  "missing_field name = Error (''Event missing required field: '' @ name)"

text \<open>\<open>if (!event.f) throw ...\<close>: undefined, null and the empty string are falsy.\<close>

definition required :: "string \<Rightarrow> string jsprop \<Rightarrow> error + string" where
  "required name x =
     (case x of
        Val s \<Rightarrow> if s = [] then Inl (missing_field name) else Inr s
      | _ \<Rightarrow> Inl (missing_field name))"

text \<open>\<open>if (event.f === null || event.f === undefined) throw ...\<close>; then \<open>Number(event.f)\<close>.\<close>

definition required_number :: "string \<Rightarrow> int jsprop \<Rightarrow> error + int" where
  "required_number name x =
     (case x of Val n \<Rightarrow> Inr n | _ \<Rightarrow> Inl (missing_field name))"

definition bind :: "error + 'a \<Rightarrow> ('a \<Rightarrow> error + 'b) \<Rightarrow> error + 'b" where
  "bind r f = (case r of Inl err \<Rightarrow> Inl err | Inr v \<Rightarrow> f v)"

text \<open>\<open>if (event.tx_hash) edge.tx_hash = event.tx_hash\<close>: a truthiness test.\<close>

definition optional_tx_hash :: "string jsprop \<Rightarrow> string option" where
  "optional_tx_hash x = (case x of Val s \<Rightarrow> if s = [] then None else Some s | _ \<Rightarrow> None)"

text \<open>\<open>if (event.log_index !== null && event.log_index !== undefined)
  edge.log_index = Number(event.log_index)\<close>.\<close>

definition optional_log_index :: "int jsprop \<Rightarrow> int option" where
  "optional_log_index x = (case x of Val n \<Rightarrow> Some n | _ \<Rightarrow> None)"

text \<open>
  One pass of the loop body up to the edge: the six checks in the order of the source,
  each yielding the checked value, then the edge literal and its optional properties.
  The result pairs the wallet key with the edge.
\<close>

definition build_edge :: "('n \<Rightarrow> string) \<Rightarrow> 'n event \<Rightarrow> error + string \<times> edge" where
  "build_edge nts ev =
     bind (required ''wallet'' (event.wallet ev)) (\<lambda>w.
     bind (required ''contract'' (event.contract ev)) (\<lambda>c.
     bind (required ''authority_type'' (event.authority_type ev)) (\<lambda>ty.
     bind (required ''target_entity'' (event.target_entity ev)) (\<lambda>te.
     bind (required_number ''block'' (event.block ev)) (\<lambda>b.
     bind (required_number ''timestamp'' (event.timestamp ev)) (\<lambda>ts.
       Inr (w,
         \<lparr> type = ty, contract = c, target_entity = te,
           amount = normalizeAmount nts (event.amount ev),
           block = b, timestamp = ts, revocation_possible = ''UNKNOWN'',
           tx_hash = optional_tx_hash (event.tx_hash ev),
           log_index = optional_log_index (event.log_index ev) \<rparr>)))))))"

subsection \<open>Grouping\<close>

text \<open>
  The loop over the events, with \<open>walletGroups\<close> as its state. For a wallet that is no own
  property yet and names nothing inherited, \<open>walletGroups[wallet] = []\<close> followed by the
  push adds a new last property. For a wallet that names a property of
  \<open>Object.prototype\<close> the guard \<open>!walletGroups[wallet]\<close> is false, nothing is stored, and
  the call of \<open>push\<close> on the inherited value throws.
\<close>

fun group_events ::
    "('n \<Rightarrow> string) \<Rightarrow> 'n event list \<Rightarrow> edge list js_object \<Rightarrow> error + edge list js_object" where
  "group_events nts [] walletGroups = Inr walletGroups"
| "group_events nts (ev # rest) walletGroups =
     (case build_edge nts ev of
        Inl err \<Rightarrow> Inl err
      | Inr (w, e) \<Rightarrow>
          (case get_property walletGroups w of
             NoProperty \<Rightarrow> group_events nts rest (AList.update w [e] walletGroups)
           | Own arr \<Rightarrow> group_events nts rest (AList.update w (arr @ [e]) walletGroups)
           | Inherited \<Rightarrow> Inl (TypeError ''walletGroups[wallet].push is not a function'')))"

subsection \<open>Sorting\<close>

text \<open>
  The comparator handed to \<open>sort\<close>. \<open>localeCompare\<close> depends on the host's collation and
  is the parameter \<open>lc\<close>. In an edge \<open>tx_hash\<close> is truthy whenever it is present, but the
  comparator tests truthiness again and so does the model.
\<close>

definition compare_log_index_or_timestamp :: "edge \<Rightarrow> edge \<Rightarrow> int" where
  "compare_log_index_or_timestamp a b =
     (case (edge.log_index a, edge.log_index b) of
        (Some i, Some j) \<Rightarrow> i - j
      | _ \<Rightarrow> edge.timestamp a - edge.timestamp b)"

definition edge_compare :: "(string \<Rightarrow> string \<Rightarrow> int) \<Rightarrow> edge \<Rightarrow> edge \<Rightarrow> int" where
  "edge_compare lc a b =
     (if edge.block a \<noteq> edge.block b then edge.block a - edge.block b
      else
        (case (edge.tx_hash a, edge.tx_hash b) of
           (Some s, Some t) \<Rightarrow>
             if s \<noteq> [] \<and> t \<noteq> [] \<and> s \<noteq> t then lc s t
             else compare_log_index_or_timestamp a b
         | _ \<Rightarrow> compare_log_index_or_timestamp a b))"

text \<open>
  \<open>Array.prototype.sort\<close> with a comparator. ECMAScript fixes its result when the
  comparator is consistent on the elements: they come out ordered, and elements the
  comparator ties keep their order. For any other comparator the order is left to the
  implementation; the model is then the stable insertion sort below.
\<close>

fun sort_insert :: "('a \<Rightarrow> 'a \<Rightarrow> int) \<Rightarrow> 'a \<Rightarrow> 'a list \<Rightarrow> 'a list" where
  "sort_insert cmp x [] = [x]"
| "sort_insert cmp x (y # ys) = (if cmp x y \<le> 0 then x # y # ys else y # sort_insert cmp x ys)"

fun array_sort :: "('a \<Rightarrow> 'a \<Rightarrow> int) \<Rightarrow> 'a list \<Rightarrow> 'a list" where
  "array_sort cmp [] = []"
| "array_sort cmp (x # xs) = sort_insert cmp x (array_sort cmp xs)"

subsection \<open>The builder and its single-wallet wrapper\<close>

definition buildAuthorityGraph ::
    "('n \<Rightarrow> string) \<Rightarrow> (string \<Rightarrow> string \<Rightarrow> int) \<Rightarrow> 'n argument \<Rightarrow>
       error + wallet_graph js_object" where
  "buildAuthorityGraph nts lc events =
     (case events of
        NonArray _ \<Rightarrow> Inl (Error ''Input must be an array of events'')
      | Array evs \<Rightarrow>
          if length evs = 0 then Inr []
          else
            (case group_events nts evs [] of
               Inl err \<Rightarrow> Inl err
             | Inr walletGroups \<Rightarrow>
                 Inr (map (\<lambda>(w, edges).
                        (w, \<lparr> wallet = w, authority_edges = array_sort (edge_compare lc) edges \<rparr>))
                      walletGroups)))"

text \<open>
  \<open>graphs[wallets[0]]\<close> is a property read; \<open>None\<close> stands for the \<open>undefined\<close> it would
  give if there were no such own property.
\<close>

definition buildSingleWalletGraph ::
    "('n \<Rightarrow> string) \<Rightarrow> (string \<Rightarrow> string \<Rightarrow> int) \<Rightarrow> 'n argument \<Rightarrow>
       error + wallet_graph option" where
  "buildSingleWalletGraph nts lc events =
     (case buildAuthorityGraph nts lc events of
        Inl err \<Rightarrow> Inl err
      | Inr graphs \<Rightarrow>
          (let wallets = Object_keys graphs in
           if length wallets = 0 then Inl (Error ''No events provided'')
           else if length wallets > 1
             then Inl (Error ''Multiple wallets detected. Use buildAuthorityGraph() for batch processing.'')
           else Inr (map_of graphs (wallets ! 0))))"

text \<open>A collation for the examples: code unit order, as \<open>localeCompare\<close> gives on strings
  that differ in a digit or in letters of one case.\<close>

fun code_unit_compare :: "string \<Rightarrow> string \<Rightarrow> int" where
  "code_unit_compare [] [] = 0"
| "code_unit_compare [] (y # ys) = - 1"
| "code_unit_compare (x # xs) [] = 1"
| "code_unit_compare (x # xs) (y # ys) =
     (if x = y then code_unit_compare xs ys
      else if (of_char x :: nat) < of_char y then - 1 else 1)"

section \<open>Notions used to state the properties\<close>

text \<open>The edges built from the events of wallet \<open>w\<close>, in input order.\<close>

fun edges_for :: "('n \<Rightarrow> string) \<Rightarrow> string \<Rightarrow> 'n event list \<Rightarrow> edge list" where
  "edges_for nts w [] = []"
| "edges_for nts w (ev # evs) =
     (case build_edge nts ev of
        Inr (w', e) \<Rightarrow> if w' = w then e # edges_for nts w evs else edges_for nts w evs
      | Inl _ \<Rightarrow> edges_for nts w evs)"

text \<open>The array stored under an own property of \<open>walletGroups\<close>, empty if there is none.\<close>

definition own_edges :: "edge list js_object \<Rightarrow> string \<Rightarrow> edge list" where
  "own_edges obj w = (case map_of obj w of Some es \<Rightarrow> es | None \<Rightarrow> [])"

text \<open>A comparator is usable for sorting a list when, on its elements, any two are
  comparable and the order it induces is transitive.\<close>

definition total_preorder_on :: "('a \<Rightarrow> 'a \<Rightarrow> int) \<Rightarrow> 'a list \<Rightarrow> bool" where
  "total_preorder_on cmp xs =
     ((\<forall>a\<in>set xs. \<forall>b\<in>set xs. cmp a b \<le> 0 \<or> cmp b a \<le> 0) \<and>
      (\<forall>a\<in>set xs. \<forall>b\<in>set xs. \<forall>c\<in>set xs. cmp a b \<le> 0 \<and> cmp b c \<le> 0 \<longrightarrow> cmp a c \<le> 0))"

subsection \<open>Example events\<close>

text \<open>A token approval as in the test suite, with the wallet, the block, the timestamp
  and the two optional properties left open, and the edge it becomes.\<close>

definition approval :: "string \<Rightarrow> int \<Rightarrow> int \<Rightarrow> string jsprop \<Rightarrow> int jsprop \<Rightarrow> 'n event" where
  "approval w b ts tx li =
     \<lparr> event.wallet = Val w, event.contract = Val ''0xTOKEN'',
       event.authority_type = Val ''token_approval'', event.target_entity = Val ''0xDEX'',
       event.amount = Val (Str ''100''), event.block = Val b, event.timestamp = Val ts,
       event.tx_hash = tx, event.log_index = li \<rparr>"

definition approval_edge :: "int \<Rightarrow> int \<Rightarrow> string option \<Rightarrow> int option \<Rightarrow> edge" where
  "approval_edge b ts tx li =
     \<lparr> type = ''token_approval'', contract = ''0xTOKEN'', target_entity = ''0xDEX'',
       amount = ''100'', block = b, timestamp = ts, revocation_possible = ''UNKNOWN'',
       tx_hash = tx, log_index = li \<rparr>"

subsection \<open>The sort key as the specification words it\<close>

text \<open>
  The specification's composite key is a chain of four keys, each breaking the ties the
  previous ones leave: block; \<open>tx_hash\<close> when both edges carry a non-empty one;
  \<open>log_index\<close> when both carry one; timestamp. It differs from \<open>edge_compare\<close> in one
  place: two edges with the same \<open>log_index\<close> go on to the timestamp.
\<close>

definition compare_log_index_then_timestamp :: "edge \<Rightarrow> edge \<Rightarrow> int" where
  "compare_log_index_then_timestamp a b =
     (case (edge.log_index a, edge.log_index b) of
        (Some i, Some j) \<Rightarrow> if i \<noteq> j then i - j else edge.timestamp a - edge.timestamp b
      | _ \<Rightarrow> edge.timestamp a - edge.timestamp b)"

definition composite_key_compare :: "(string \<Rightarrow> string \<Rightarrow> int) \<Rightarrow> edge \<Rightarrow> edge \<Rightarrow> int" where
  "composite_key_compare lc a b =
     (if edge.block a \<noteq> edge.block b then edge.block a - edge.block b
      else
        (case (edge.tx_hash a, edge.tx_hash b) of
           (Some s, Some t) \<Rightarrow>
             if s \<noteq> [] \<and> t \<noteq> [] \<and> s \<noteq> t then lc s t
             else compare_log_index_then_timestamp a b
         | _ \<Rightarrow> compare_log_index_then_timestamp a b))"

definition non_decreasing :: "(string \<Rightarrow> string \<Rightarrow> int) \<Rightarrow> edge list \<Rightarrow> bool" where
  "non_decreasing lc es = sorted_wrt (\<lambda>a b. composite_key_compare lc a b \<le> 0) es"


text \<open>The \<open>tx_hash\<close> key applies to two edges and separates them.\<close>

definition tx_hash_decides :: "edge \<Rightarrow> edge \<Rightarrow> bool" where
  "tx_hash_decides a b =
     (case (edge.tx_hash a, edge.tx_hash b) of
        (Some s, Some t) \<Rightarrow> s \<noteq> [] \<and> t \<noteq> [] \<and> s \<noteq> t
      | _ \<Rightarrow> False)"

text \<open>Two edges reach the \<open>log_index\<close> key and tie there: same block, \<open>tx_hash\<close> not
  deciding, both with the same \<open>log_index\<close>.\<close>

definition log_index_tie :: "edge \<Rightarrow> edge \<Rightarrow> bool" where
  "log_index_tie a b =
     (edge.block a = edge.block b \<and> \<not> tx_hash_decides a b \<and>
      (case (edge.log_index a, edge.log_index b) of
         (Some i, Some j) \<Rightarrow> i = j
       | _ \<Rightarrow> False))"


subsection \<open>Structural completeness as the specification words it\<close>

definition empty_or_null :: "string jsprop \<Rightarrow> bool" where
  "empty_or_null x = (x = Undefined \<or> x = Null \<or> x = Val [])"

definition incomplete :: "'n event \<Rightarrow> bool" where
  "incomplete ev =
     (empty_or_null (event.wallet ev) \<or> empty_or_null (event.contract ev) \<or>
      empty_or_null (event.authority_type ev) \<or> empty_or_null (event.target_entity ev) \<or>
      event.block ev = Undefined \<or> event.block ev = Null \<or>
      event.timestamp ev = Undefined \<or> event.timestamp ev = Null)"

text \<open>No event names, as its wallet, a property that \<open>{}\<close> inherits.\<close>

definition no_inherited_key :: "'n event list \<Rightarrow> bool" where
  "no_inherited_key evs = (\<forall>ev\<in>set evs. \<forall>w\<in>set object_prototype_keys. event.wallet ev \<noteq> Val w)"

text \<open>The event \<open>{ contract: "0xTOKEN" }\<close> of the test suite.\<close>

definition only_contract :: "'n event" where
  "only_contract =
     \<lparr> event.wallet = Undefined, event.contract = Val ''0xTOKEN'',
       event.authority_type = Undefined, event.target_entity = Undefined,
       event.amount = Undefined, event.block = Undefined, event.timestamp = Undefined,
       event.tx_hash = Undefined, event.log_index = Undefined \<rparr>"

subsection \<open>When the comparator is a total preorder\<close>

text \<open>An edge carries a \<open>tx_hash\<close> that the comparator looks at.\<close>

definition has_tx_hash :: "edge \<Rightarrow> bool" where
  "has_tx_hash e = (case edge.tx_hash e of Some s \<Rightarrow> s \<noteq> [] | None \<Rightarrow> False)"

text \<open>Either every edge carries a \<open>tx_hash\<close> or none does, and likewise for \<open>log_index\<close>.\<close>

definition uniform_optionals :: "edge list \<Rightarrow> bool" where
  "uniform_optionals es =
     (((\<forall>e\<in>set es. has_tx_hash e) \<or> (\<forall>e\<in>set es. \<not> has_tx_hash e)) \<and>
      ((\<forall>e\<in>set es. edge.log_index e \<noteq> None) \<or> (\<forall>e\<in>set es. edge.log_index e = None)))"

text \<open>The collation orders the strings totally, and ties only equal strings.\<close>

definition total_order_collation :: "(string \<Rightarrow> string \<Rightarrow> int) \<Rightarrow> bool" where
  "total_order_collation lc =
     ((\<forall>s t. lc s t \<le> 0 \<or> lc t s \<le> 0) \<and>
      (\<forall>s t u. lc s t \<le> 0 \<and> lc t u \<le> 0 \<longrightarrow> lc s u \<le> 0) \<and>
      (\<forall>s t. lc s t \<le> 0 \<and> lc t s \<le> 0 \<longrightarrow> s = t))"

text \<open>The value of a digit sequence, most significant digit first (used to check the
  constant of \<open>normalizeAmount\<close>).\<close>

definition horner :: "nat list \<Rightarrow> nat" where
  "horner ds = foldl (\<lambda>a d. 10 * a + d) 0 ds"

section \<open>Amount normalization\<close>

lemma includes_str_sublist: "includes_str s t \<longleftrightarrow> sublist t s"
  by (induction s) (auto simp: sublist_Cons_right)

lemma digits_step: "0 < n \<Longrightarrow> d < 10 \<Longrightarrow> digits (10 * n + d) = digits n @ [digit_char d]"
  by (subst digits.simps) simp

lemma digits_small: "d < 10 \<Longrightarrow> digits d = [digit_char d]"
  by (subst digits.simps) simp

lemma horner_pos: "ds \<noteq> [] \<Longrightarrow> hd ds \<noteq> 0 \<Longrightarrow> 0 < horner ds"
proof (induction ds rule: rev_induct)
  case Nil
  then show ?case by simp
next
  case (snoc d ds)
  then show ?case by (cases "ds = []") (simp_all add: horner_def)
qed

lemma digits_horner:
  "ds \<noteq> [] \<Longrightarrow> hd ds \<noteq> 0 \<Longrightarrow> \<forall>d\<in>set ds. d < 10 \<Longrightarrow> digits (horner ds) = map digit_char ds"
proof (induction ds rule: rev_induct)
  case Nil
  then show ?case by simp
next
  case (snoc d ds)
  show ?case
  proof (cases "ds = []")
    case True
    with snoc.prems show ?thesis by (simp add: horner_def digits_small)
  next
    case False
    with snoc.prems have pos: "0 < horner ds" and hd: "hd ds \<noteq> 0"
      by (auto intro: horner_pos)
    have "horner (ds @ [d]) = 10 * horner ds + d" by (simp add: horner_def)
    with snoc False hd pos show ?thesis by (simp add: digits_step)
  qed
qed

lemma max_uint256_horner:
  "nat (2 ^ 256 - 1) = horner [1,1,5,7,9,2,0,8,9,2,3,7,3,1,6,1,9,5,4,2,3,5,7,0,9,8,5,0,0,8,6,8,7,9,0,7,8,5,3,2,6,9,9,8,4,6,6,5,6,4,0,5,6,4,0,3,9,4,5,7,5,8,4,0,0,7,9,1,3,1,2,9,6,3,9,9,3,5]"
  by (simp add: horner_def)

text \<open>The constant in the source is the decimal form of \<open>2^256 - 1\<close>.\<close>

lemma max_uint256_decimal: "decimal (2 ^ 256 - 1) = MAX_UINT256"
proof -
  have "decimal (2 ^ 256 - 1) = digits (nat (2 ^ 256 - 1))"
    by (simp add: decimal_def)
  also have "\<dots> = MAX_UINT256"
    unfolding max_uint256_horner
    by (subst digits_horner) (simp_all add: digit_char_def MAX_UINT256_def)
  finally show ?thesis .
qed

lemma upper_char_zero: "upper_char c = CHR ''0'' \<longleftrightarrow> c = CHR ''0''"
  by (simp add: upper_char_def)

lemma toUpperCase_zero: "toUpperCase s = ''0'' \<longleftrightarrow> s = ''0''"
  by (cases s) (auto simp: toUpperCase_def upper_char_zero)

lemma toUpperCase_unlimited: "toUpperCase ''unlimited'' = ''UNLIMITED''"
  by (simp add: toUpperCase_def upper_char_def)

lemma toUpperCase_max_uint: "toUpperCase ''max_uint'' = ''MAX_UINT''"
  by (simp add: toUpperCase_def upper_char_def)

lemma normalizeAmount_zero: "normalizeAmount decimal (Val (Num 0)) = ''0''"
  by (simp add: normalizeAmount_def String_def decimal_def digits_small digit_char_def
      toUpperCase_def upper_char_def MAX_UINT256_def)

text \<open>
  C2. \<open>normalizeAmount\<close> gives \<open>unlimited\<close> for null and for an absent value. For any other
  value, whose string form is the string itself or what the host prints for the Number,
  it gives \<open>unlimited\<close> when the upper-cased string form is \<open>MAX_UINT\<close> or \<open>UNLIMITED\<close> or
  contains the decimal notation of \<open>2^256 - 1\<close> as a substring, \<open>0\<close> when the string form is
  \<open>0\<close>, and the string form itself in every other case. This holds for every printing
  function of Numbers.
\<close>

theorem normalizeAmount_cases:
  "normalizeAmount nts raw =
     (case raw of
        Undefined \<Rightarrow> ''unlimited''
      | Null \<Rightarrow> ''unlimited''
      | Val v \<Rightarrow>
          (let form = (case v of Str s \<Rightarrow> s | Num n \<Rightarrow> nts n) in
           if toUpperCase form = ''MAX_UINT'' \<or> toUpperCase form = ''UNLIMITED''
              \<or> sublist (decimal (2 ^ 256 - 1)) (toUpperCase form)
           then ''unlimited''
           else if form = ''0'' then ''0''
           else form))"
  unfolding max_uint256_decimal
  by (cases raw)
    (auto simp: normalizeAmount_def String_def Let_def includes_str_sublist toUpperCase_zero
          split: scalar.splits)

theorem normalizeAmount_cases_witness:
  "normalizeAmount decimal (Val (Str ''max_uint'')) = ''unlimited'' \<and>
   normalizeAmount decimal (Val (Num 0)) = ''0''"
  using normalizeAmount_cases [of decimal "Val (Str ''max_uint'')"]
    normalizeAmount_cases [of decimal "Val (Num 0)"]
  by (simp add: toUpperCase_max_uint normalizeAmount_zero)

text \<open>
  C6. Normalizing a normalized amount changes nothing: the result of \<open>normalizeAmount\<close>,
  passed to it again as a string, comes back as it is.
\<close>

theorem normalizeAmount_idempotent:
  "normalizeAmount nts (Val (Str (normalizeAmount nts x))) = normalizeAmount nts x"
  by (cases x)
    (auto simp: normalizeAmount_def Let_def String_def toUpperCase_unlimited toUpperCase_zero
          split: scalar.splits)

theorem normalizeAmount_idempotent_witness:
  "normalizeAmount decimal (Val (Str (normalizeAmount decimal (Val (Num 0))))) = ''0''"
  using normalizeAmount_idempotent [of decimal "Val (Num 0)"]
  by (simp add: normalizeAmount_zero)

section \<open>Sorting\<close>

lemma mset_sort_insert: "mset (sort_insert cmp x xs) = add_mset x (mset xs)"
  by (induction xs) auto

lemma mset_array_sort: "mset (array_sort cmp xs) = mset xs"
  by (induction xs) (auto simp: mset_sort_insert)

lemma set_sort_insert: "set (sort_insert cmp x xs) = insert x (set xs)"
  by (induction xs) auto

lemma set_array_sort: "set (array_sort cmp xs) = set xs"
  by (induction xs) (auto simp: set_sort_insert)

lemma sorted_sort_insert:
  assumes tot: "\<And>a b. a \<in> S \<Longrightarrow> b \<in> S \<Longrightarrow> cmp a b \<le> 0 \<or> cmp b a \<le> 0"
    and tr: "\<And>a b c. a \<in> S \<Longrightarrow> b \<in> S \<Longrightarrow> c \<in> S \<Longrightarrow>
               cmp a b \<le> 0 \<Longrightarrow> cmp b c \<le> 0 \<Longrightarrow> cmp a c \<le> 0"
  shows "x \<in> S \<Longrightarrow> set ys \<subseteq> S \<Longrightarrow> sorted_wrt (\<lambda>a b. cmp a b \<le> 0) ys \<Longrightarrow>
           sorted_wrt (\<lambda>a b. cmp a b \<le> 0) (sort_insert cmp x ys)"
proof (induction ys)
  case Nil
  then show ?case by simp
next
  case (Cons y ys)
  from Cons.prems have yS: "y \<in> S" and ysS: "set ys \<subseteq> S"
    and y_le: "\<forall>z\<in>set ys. cmp y z \<le> 0" and sorted_ys: "sorted_wrt (\<lambda>a b. cmp a b \<le> 0) ys"
    by simp_all
  show ?case
  proof (cases "cmp x y \<le> 0")
    case True
    have "cmp x z \<le> 0" if "z \<in> set ys" for z
    proof -
      from that y_le have "cmp y z \<le> 0" by blast
      moreover from that ysS have "z \<in> S" by blast
      ultimately show ?thesis using tr [OF Cons.prems(1) yS _ True] by blast
    qed
    with True y_le sorted_ys show ?thesis by simp
  next
    case False
    with tot [OF Cons.prems(1) yS] have yx: "cmp y x \<le> 0" by blast
    have ih: "sorted_wrt (\<lambda>a b. cmp a b \<le> 0) (sort_insert cmp x ys)"
      using Cons.prems(1) ysS sorted_ys by (rule Cons.IH)
    have "\<forall>z\<in>set (sort_insert cmp x ys). cmp y z \<le> 0"
      using yx y_le by (simp add: set_sort_insert)
    with False ih show ?thesis by simp
  qed
qed

lemma sorted_array_sort:
  assumes "total_preorder_on cmp xs"
  shows "sorted_wrt (\<lambda>a b. cmp a b \<le> 0) (array_sort cmp xs)"
proof -
  have tot: "\<And>a b. a \<in> set xs \<Longrightarrow> b \<in> set xs \<Longrightarrow> cmp a b \<le> 0 \<or> cmp b a \<le> 0"
    using assms unfolding total_preorder_on_def by blast
  have tr: "\<And>a b c. a \<in> set xs \<Longrightarrow> b \<in> set xs \<Longrightarrow> c \<in> set xs \<Longrightarrow>
               cmp a b \<le> 0 \<Longrightarrow> cmp b c \<le> 0 \<Longrightarrow> cmp a c \<le> 0"
    using assms unfolding total_preorder_on_def by blast
  have "set ys \<subseteq> set xs \<Longrightarrow> sorted_wrt (\<lambda>a b. cmp a b \<le> 0) (array_sort cmp ys)" for ys
  proof (induction ys)
    case Nil
    then show ?case by simp
  next
    case (Cons y ys)
    then have "y \<in> set xs" and "set (array_sort cmp ys) \<subseteq> set xs"
      and "sorted_wrt (\<lambda>a b. cmp a b \<le> 0) (array_sort cmp ys)"
      by (simp_all add: set_array_sort)
    then show ?case
      using sorted_sort_insert [where S = "set xs" and cmp = cmp, OF tot tr] by simp
  qed
  then show ?thesis by simp
qed




section \<open>Validation and grouping\<close>

lemma bind_Inr: "bind r f = Inr v \<longleftrightarrow> (\<exists>x. r = Inr x \<and> f x = Inr v)"
  by (cases r) (simp_all add: bind_def)

lemma bind_Inl: "bind r f = Inl err \<longleftrightarrow> r = Inl err \<or> (\<exists>x. r = Inr x \<and> f x = Inl err)"
  by (cases r) (simp_all add: bind_def)

lemma required_Inr: "required name x = Inr s \<longleftrightarrow> x = Val s \<and> s \<noteq> []"
  by (cases x) (auto simp: required_def)

lemma required_number_Inr: "required_number name x = Inr n \<longleftrightarrow> x = Val n"
  by (cases x) (auto simp: required_number_def)

lemma build_edge_Inr:
  "build_edge nts ev = Inr (w, e) \<longleftrightarrow>
     (\<exists>c ty te b ts.
        event.wallet ev = Val w \<and> w \<noteq> [] \<and>
        event.contract ev = Val c \<and> c \<noteq> [] \<and>
        event.authority_type ev = Val ty \<and> ty \<noteq> [] \<and>
        event.target_entity ev = Val te \<and> te \<noteq> [] \<and>
        event.block ev = Val b \<and> event.timestamp ev = Val ts \<and>
        e = \<lparr> type = ty, contract = c, target_entity = te,
              amount = normalizeAmount nts (event.amount ev),
              block = b, timestamp = ts, revocation_possible = ''UNKNOWN'',
              tx_hash = optional_tx_hash (event.tx_hash ev),
              log_index = optional_log_index (event.log_index ev) \<rparr>)"
  unfolding build_edge_def bind_Inr required_Inr required_number_Inr
  by auto

lemma build_edge_wallet: "build_edge nts ev = Inr (w, e) \<Longrightarrow> event.wallet ev = Val w \<and> w \<noteq> []"
  unfolding build_edge_Inr by blast

lemma own_edges_update: "own_edges (AList.update k v obj) w = (if w = k then v else own_edges obj w)"
  by (simp add: own_edges_def update_conv')

lemma group_events_own_edges:
  "group_events nts evs g0 = Inr g \<Longrightarrow> own_edges g w = own_edges g0 w @ edges_for nts w evs"
proof (induction evs arbitrary: g0)
  case Nil
  then show ?case by simp
next
  case (Cons ev evs)
  from Cons.prems obtain w' e where be: "build_edge nts ev = Inr (w', e)"
    by (auto split: sum.splits)
  show ?case
  proof (cases "get_property g0 w'")
    case (Own arr)
    then have arr: "own_edges g0 w' = arr"
      by (auto simp: get_property_def own_edges_def split: option.splits if_splits)
    from Own Cons.prems be have "group_events nts evs (AList.update w' (arr @ [e]) g0) = Inr g" by simp
    from Cons.IH [OF this] have
      "own_edges g w = own_edges (AList.update w' (arr @ [e]) g0) w @ edges_for nts w evs" .
    with arr be show ?thesis by (auto simp: own_edges_update)
  next
    case Inherited
    with Cons.prems be show ?thesis by simp
  next
    case NoProperty
    then have arr: "own_edges g0 w' = []"
      by (auto simp: get_property_def own_edges_def split: option.splits if_splits)
    from NoProperty Cons.prems be have "group_events nts evs (AList.update w' [e] g0) = Inr g" by simp
    from Cons.IH [OF this] have
      "own_edges g w = own_edges (AList.update w' [e] g0) w @ edges_for nts w evs" .
    with arr be show ?thesis by (auto simp: own_edges_update)
  qed
qed

lemma group_events_keys:
  "group_events nts evs g0 = Inr g \<Longrightarrow>
     set (map fst g) = set (map fst g0) \<union> {w. \<exists>ev\<in>set evs. event.wallet ev = Val w}"
proof (induction evs arbitrary: g0)
  case Nil
  then show ?case by simp
next
  case (Cons ev evs)
  from Cons.prems obtain w' e where be: "build_edge nts ev = Inr (w', e)"
    by (auto split: sum.splits)
  then have w': "event.wallet ev = Val w'" by (simp add: build_edge_wallet)
  show ?case
  proof (cases "get_property g0 w'")
    case (Own arr)
    with Cons.prems be have "group_events nts evs (AList.update w' (arr @ [e]) g0) = Inr g" by simp
    from Cons.IH [OF this] w' show ?thesis by (auto simp: dom_update)
  next
    case Inherited
    with Cons.prems be show ?thesis by simp
  next
    case NoProperty
    with Cons.prems be have "group_events nts evs (AList.update w' [e] g0) = Inr g" by simp
    from Cons.IH [OF this] w' show ?thesis by (auto simp: dom_update)
  qed
qed

lemma group_events_distinct:
  "group_events nts evs g0 = Inr g \<Longrightarrow> distinct (map fst g0) \<Longrightarrow> distinct (map fst g)"
proof (induction evs arbitrary: g0)
  case Nil
  then show ?case by simp
next
  case (Cons ev evs)
  from Cons.prems obtain w' e where be: "build_edge nts ev = Inr (w', e)"
    by (auto split: sum.splits)
  show ?case
  proof (cases "get_property g0 w'")
    case (Own arr)
    with Cons.prems be have "group_events nts evs (AList.update w' (arr @ [e]) g0) = Inr g" by simp
    from Cons.IH [OF this] Cons.prems(2) show ?thesis by (simp add: distinct_update)
  next
    case Inherited
    with Cons.prems be show ?thesis by simp
  next
    case NoProperty
    with Cons.prems be have "group_events nts evs (AList.update w' [e] g0) = Inr g" by simp
    from Cons.IH [OF this] Cons.prems(2) show ?thesis by (simp add: distinct_update)
  qed
qed

lemma group_events_complete:
  "group_events nts evs g0 = Inr g \<Longrightarrow> ev \<in> set evs \<Longrightarrow> \<exists>w e. build_edge nts ev = Inr (w, e)"
proof (induction evs arbitrary: g0)
  case Nil
  then show ?case by simp
next
  case (Cons x evs)
  from Cons.prems(1) obtain w' e where be: "build_edge nts x = Inr (w', e)"
    by (auto split: sum.splits)
  show ?case
  proof (cases "ev = x")
    case True
    with be show ?thesis by simp
  next
    case False
    with Cons.prems(2) have "ev \<in> set evs" by simp
    moreover from Cons.prems(1) be obtain g1 where "group_events nts evs g1 = Inr g"
      by (auto split: property.splits)
    ultimately show ?thesis using Cons.IH by blast
  qed
qed

lemma edges_for_events:
  "\<forall>ev\<in>set evs. \<exists>w e. build_edge nts ev = Inr (w, e) \<Longrightarrow>
     list_all2 (\<lambda>ev e. build_edge nts ev = Inr (w, e)) [ev\<leftarrow>evs. event.wallet ev = Val w] (edges_for nts w evs)"
proof (induction evs)
  case Nil
  then show ?case by simp
next
  case (Cons x evs)
  then obtain w' e where be: "build_edge nts x = Inr (w', e)" by auto
  then have "event.wallet x = Val w'" by (simp add: build_edge_wallet)
  with be Cons show ?case by auto
qed

lemma buildAuthorityGraph_graph:
  assumes "buildAuthorityGraph nts lc (Array evs) = Inr graphs" and "(w, g) \<in> set graphs"
  shows "g = \<lparr> wallet = w, authority_edges = array_sort (edge_compare lc) (edges_for nts w evs) \<rparr>"
proof -
  from assms have ne: "evs \<noteq> []" by (auto simp: buildAuthorityGraph_def split: if_splits)
  with assms(1) obtain groups where gr: "group_events nts evs [] = Inr groups"
    and graphs: "graphs = map (\<lambda>(w, edges).
        (w, \<lparr> wallet = w, authority_edges = array_sort (edge_compare lc) edges \<rparr>)) groups"
    by (auto simp: buildAuthorityGraph_def split: sum.splits)
  from graphs assms(2) obtain edges where mem: "(w, edges) \<in> set groups"
    and g: "g = \<lparr> wallet = w, authority_edges = array_sort (edge_compare lc) edges \<rparr>"
    by auto
  from gr have "distinct (map fst groups)" by (rule group_events_distinct) simp
  with mem have "map_of groups w = Some edges" by simp
  then have "own_edges groups w = edges" by (simp add: own_edges_def)
  with group_events_own_edges [OF gr, of w] have "edges = edges_for nts w evs"
    by (simp add: own_edges_def)
  with g show ?thesis by simp
qed

lemma edges_for_mem: "e \<in> set (edges_for nts w evs) \<Longrightarrow> \<exists>ev\<in>set evs. build_edge nts ev = Inr (w, e)"
proof (induction evs)
  case Nil
  then show ?case by simp
next
  case (Cons x evs)
  then show ?case by (cases "build_edge nts x") (auto split: if_splits)
qed

lemma edges_for_Cons:
  "set (edges_for nts w evs) \<subseteq> set (edges_for nts w (ev # evs))"
  by (auto split: sum.splits)

lemma edges_for_intro:
  "ev \<in> set evs \<Longrightarrow> build_edge nts ev = Inr (w, e) \<Longrightarrow> e \<in> set (edges_for nts w evs)"
proof (induction evs)
  case Nil
  then show ?case by simp
next
  case (Cons x evs)
  show ?case
  proof (cases "ev = x")
    case True
    with Cons.prems show ?thesis by simp
  next
    case False
    with Cons have "e \<in> set (edges_for nts w evs)" by simp
    with edges_for_Cons show ?thesis by blast
  qed
qed

lemma buildAuthorityGraph_groups:
  assumes "buildAuthorityGraph nts lc (Array evs) = Inr graphs" and "evs \<noteq> []"
  obtains groups where "group_events nts evs [] = Inr groups"
    and "graphs = map (\<lambda>(w, edges).
        (w, \<lparr> wallet = w, authority_edges = array_sort (edge_compare lc) edges \<rparr>)) groups"
  using assms by (auto simp: buildAuthorityGraph_def split: sum.splits)

lemma buildAuthorityGraph_edge:
  assumes ok: "buildAuthorityGraph nts lc (Array evs) = Inr graphs" and ev: "ev \<in> set evs"
  shows "\<exists>w g e. (w, g) \<in> set graphs \<and> e \<in> set (authority_edges g) \<and> build_edge nts ev = Inr (w, e)"
proof -
  from ev have ne: "evs \<noteq> []" by auto
  from buildAuthorityGraph_groups [OF ok ne] obtain groups where gr: "group_events nts evs [] = Inr groups"
    and graphs: "graphs = map (\<lambda>(w, edges).
        (w, \<lparr> wallet = w, authority_edges = array_sort (edge_compare lc) edges \<rparr>)) groups"
    by blast
  from group_events_complete [OF gr ev] obtain w e where be: "build_edge nts ev = Inr (w, e)" by blast
  then have "event.wallet ev = Val w" by (simp add: build_edge_wallet)
  with ev have "w \<in> set (map fst groups)" unfolding group_events_keys [OF gr] by auto
  then obtain edges where "(w, edges) \<in> set groups" by auto
  with graphs have mem: "(w, \<lparr> wallet = w, authority_edges = array_sort (edge_compare lc) edges \<rparr>) \<in> set graphs"
    by force
  from buildAuthorityGraph_graph [OF ok mem]
  have "array_sort (edge_compare lc) edges = array_sort (edge_compare lc) (edges_for nts w evs)" by simp
  with edges_for_intro [OF ev be]
  have "e \<in> set (array_sort (edge_compare lc) edges)" by (simp add: set_array_sort)
  with mem be show ?thesis by force
qed

lemma build_edge_revocation: "build_edge nts ev = Inr (w, e) \<Longrightarrow> revocation_possible e = ''UNKNOWN''"
  unfolding build_edge_Inr by auto

subsection \<open>Failures\<close>

lemma build_edge_Inl: "build_edge nts ev = Inl err \<Longrightarrow> \<exists>name. err = missing_field name"
  by (auto simp: build_edge_def bind_Inl required_def required_number_def
      split: jsprop.splits if_splits)

lemma group_events_Inl:
  "group_events nts evs g0 = Inl err \<Longrightarrow>
     (\<exists>name. err = missing_field name) \<or> err = TypeError ''walletGroups[wallet].push is not a function''"
proof (induction evs arbitrary: g0)
  case Nil
  then show ?case by simp
next
  case (Cons ev evs)
  show ?case
  proof (cases "build_edge nts ev")
    case (Inl a)
    with Cons.prems show ?thesis by (auto dest: build_edge_Inl)
  next
    case (Inr p)
    then obtain w e where "build_edge nts ev = Inr (w, e)" by (cases p) simp
    with Cons show ?thesis by (cases "get_property g0 w") auto
  qed
qed

lemma required_Inl: "required name x = Inl err \<longleftrightarrow> empty_or_null x \<and> err = missing_field name"
  by (cases x) (auto simp: required_def empty_or_null_def)

lemma required_number_Inl:
  "required_number name x = Inl err \<longleftrightarrow> (x = Undefined \<or> x = Null) \<and> err = missing_field name"
  by (cases x) (auto simp: required_number_def)

text \<open>A failed validation names the first required field, in the order of the checks,
  that is missing, empty or null.\<close>

lemma build_edge_names_field:
  assumes "build_edge nts ev = Inl err"
  shows "(err = missing_field ''wallet'' \<and> empty_or_null (event.wallet ev)) \<or>
         (err = missing_field ''contract'' \<and> empty_or_null (event.contract ev)) \<or>
         (err = missing_field ''authority_type'' \<and> empty_or_null (event.authority_type ev)) \<or>
         (err = missing_field ''target_entity'' \<and> empty_or_null (event.target_entity ev)) \<or>
         (err = missing_field ''block'' \<and> (event.block ev = Undefined \<or> event.block ev = Null)) \<or>
         (err = missing_field ''timestamp'' \<and>
            (event.timestamp ev = Undefined \<or> event.timestamp ev = Null))"
  using assms unfolding build_edge_def bind_Inl required_Inl required_number_Inl by blast

lemma build_edge_Inl_incomplete: "build_edge nts ev = Inl err \<Longrightarrow> incomplete ev"
  by (drule build_edge_names_field) (auto simp: incomplete_def)

lemma build_edge_Inr_complete: "build_edge nts ev = Inr p \<Longrightarrow> \<not> incomplete ev"
  by (cases p) (auto simp: build_edge_Inr incomplete_def empty_or_null_def)

lemma incomplete_iff: "incomplete ev \<longleftrightarrow> (\<exists>err. build_edge nts ev = Inl err)"
  by (cases "build_edge nts ev") (auto dest: build_edge_Inl_incomplete build_edge_Inr_complete)

lemma group_events_Inl_incomplete:
  "group_events nts evs g0 = Inl (missing_field name) \<Longrightarrow> \<exists>ev\<in>set evs. incomplete ev"
proof (induction evs arbitrary: g0)
  case Nil
  then show ?case by simp
next
  case (Cons ev evs)
  show ?case
  proof (cases "build_edge nts ev")
    case (Inl a)
    then show ?thesis by (auto dest: build_edge_Inl_incomplete)
  next
    case (Inr p)
    then obtain w e where "build_edge nts ev = Inr (w, e)" by (cases p) simp
    with Cons show ?thesis by (cases "get_property g0 w") (auto simp: missing_field_def)
  qed
qed

lemma group_events_incomplete:
  "no_inherited_key evs \<Longrightarrow> \<exists>ev\<in>set evs. incomplete ev \<Longrightarrow>
     \<exists>name. group_events nts evs g0 = Inl (missing_field name)"
proof (induction evs arbitrary: g0)
  case Nil
  then show ?case by simp
next
  case (Cons ev evs)
  show ?case
  proof (cases "build_edge nts ev")
    case (Inl a)
    then show ?thesis by (auto dest: build_edge_Inl)
  next
    case (Inr p)
    then obtain w e where be: "build_edge nts ev = Inr (w, e)" by (cases p) simp
    then have "event.wallet ev = Val w" by (simp add: build_edge_wallet)
    with Cons.prems(1) have w: "w \<notin> set object_prototype_keys"
      by (auto simp: no_inherited_key_def)
    from Cons.prems(1) have rest: "no_inherited_key evs" by (simp add: no_inherited_key_def)
    from Cons.prems(2) Inr have "\<exists>ev\<in>set evs. incomplete ev"
      by (auto dest: build_edge_Inr_complete)
    from Cons.IH [OF rest this] be w show ?thesis
      by (cases "map_of g0 w") (simp_all add: get_property_def)
  qed
qed

text \<open>
  When no wallet collides with an inherited property, the builder fails with a
  missing-field error exactly when some event is incomplete.
\<close>

lemma missing_field_iff_incomplete:
  assumes "no_inherited_key evs"
  shows "(\<exists>name. buildAuthorityGraph nts lc (Array evs) = Inl (missing_field name)) \<longleftrightarrow>
         (\<exists>ev\<in>set evs. incomplete ev)"
proof
  assume "\<exists>name. buildAuthorityGraph nts lc (Array evs) = Inl (missing_field name)"
  then obtain name where "group_events nts evs [] = Inl (missing_field name)"
    by (auto simp: buildAuthorityGraph_def split: if_splits sum.splits)
  then show "\<exists>ev\<in>set evs. incomplete ev" by (rule group_events_Inl_incomplete)
next
  assume inc: "\<exists>ev\<in>set evs. incomplete ev"
  then have "evs \<noteq> []" by auto
  moreover from group_events_incomplete [OF assms inc]
  obtain name where "group_events nts evs [] = Inl (missing_field name)" by blast
  ultimately show "\<exists>name. buildAuthorityGraph nts lc (Array evs) = Inl (missing_field name)"
    by (auto simp: buildAuthorityGraph_def)
qed

section \<open>The comparator\<close>

lemma edge_compare_no_tx_hash:
  "edge.tx_hash a = None \<or> edge.tx_hash b = None \<Longrightarrow>
     edge_compare lc a b =
       (if edge.block a \<noteq> edge.block b then edge.block a - edge.block b
        else compare_log_index_or_timestamp a b)"
  by (auto simp: edge_compare_def split: option.splits)

text \<open>The order the comparator induces, by the optional keys the two edges carry.\<close>

lemma edge_compare_le_iff:
  "edge_compare lc a b \<le> 0 \<longleftrightarrow>
     edge.block a < edge.block b \<or>
     (edge.block a = edge.block b \<and>
      (if has_tx_hash a \<and> has_tx_hash b \<and> edge.tx_hash a \<noteq> edge.tx_hash b
       then lc (the (edge.tx_hash a)) (the (edge.tx_hash b)) \<le> 0
       else if edge.log_index a \<noteq> None \<and> edge.log_index b \<noteq> None
         then the (edge.log_index a) \<le> the (edge.log_index b)
         else edge.timestamp a \<le> edge.timestamp b))"
  by (auto simp: edge_compare_def compare_log_index_or_timestamp_def has_tx_hash_def
      split: option.splits)



lemma lex_total_preorder:
  fixes le1 le2 :: "'a \<Rightarrow> 'a \<Rightarrow> bool" and k :: "'a \<Rightarrow> int"
  assumes t1: "\<And>a b. a \<in> S \<Longrightarrow> b \<in> S \<Longrightarrow> R a b \<or> R b a"
    and t2: "\<And>a b c. a \<in> S \<Longrightarrow> b \<in> S \<Longrightarrow> c \<in> S \<Longrightarrow> R a b \<Longrightarrow> R b c \<Longrightarrow> R a c"
    and le: "\<And>a b. a \<in> S \<Longrightarrow> b \<in> S \<Longrightarrow> L a b \<longleftrightarrow> k a < k b \<or> (k a = k b \<and> R a b)"
  shows "(\<forall>a\<in>S. \<forall>b\<in>S. L a b \<or> L b a) \<and>
         (\<forall>a\<in>S. \<forall>b\<in>S. \<forall>c\<in>S. L a b \<and> L b c \<longrightarrow> L a c)"
proof (intro conjI ballI impI)
  fix a b assume "a \<in> S" "b \<in> S"
  with t1 [of a b] le [of a b] le [of b a] show "L a b \<or> L b a" by auto
next
  fix a b c assume m: "a \<in> S" "b \<in> S" "c \<in> S" and "L a b \<and> L b c"
  with le [of a b] le [of b c] have
    "k a < k b \<or> (k a = k b \<and> R a b)" "k b < k c \<or> (k b = k c \<and> R b c)" by auto
  then have "k a < k c \<or> (k a = k c \<and> R a c)"
    using t2 [OF m] by auto
  with le [of a c] m show "L a c" by auto
qed

text \<open>
  With a collation that orders the strings totally and ties only equal strings, the
  comparator is a total preorder on every list of edges that carry the optional keys
  uniformly. A collation that ties two different strings, as \<open>localeCompare\<close> may, is not
  covered.
\<close>

lemma uniform_total_preorder:
  assumes lc: "total_order_collation lc" and u: "uniform_optionals es"
  shows "total_preorder_on (edge_compare lc) es"
proof -
  define S where "S = set es"
  define T :: "edge \<Rightarrow> edge \<Rightarrow> bool" where "T = (\<lambda>a b. if edge.log_index a \<noteq> None \<and> edge.log_index b \<noteq> None
         then the (edge.log_index a) \<le> the (edge.log_index b)
         else edge.timestamp a \<le> edge.timestamp b)"
  define R :: "edge \<Rightarrow> edge \<Rightarrow> bool" where "R = (\<lambda>a b. if has_tx_hash a \<and> has_tx_hash b \<and> edge.tx_hash a \<noteq> edge.tx_hash b
       then lc (the (edge.tx_hash a)) (the (edge.tx_hash b)) \<le> 0 else T a b)"
  define tx :: "edge \<Rightarrow> string" where "tx = (\<lambda>a. the (edge.tx_hash a))"
  from lc have lc_tot: "\<And>s t. lc s t \<le> 0 \<or> lc t s \<le> 0"
    and lc_tr: "\<And>s t u. lc s t \<le> 0 \<Longrightarrow> lc t u \<le> 0 \<Longrightarrow> lc s u \<le> 0"
    and lc_anti: "\<And>s t. lc s t \<le> 0 \<Longrightarrow> lc t s \<le> 0 \<Longrightarrow> s = t"
    unfolding total_order_collation_def by blast+
  from u have ulog: "(\<forall>e\<in>S. edge.log_index e \<noteq> None) \<or> (\<forall>e\<in>S. edge.log_index e = None)"
    and utx: "(\<forall>e\<in>S. has_tx_hash e) \<or> (\<forall>e\<in>S. \<not> has_tx_hash e)"
    unfolding uniform_optionals_def S_def by blast+
  from ulog obtain f :: "edge \<Rightarrow> int" where T: "\<And>a b. a \<in> S \<Longrightarrow> b \<in> S \<Longrightarrow> T a b \<longleftrightarrow> f a \<le> f b"
  proof
    assume all: "\<forall>e\<in>S. edge.log_index e \<noteq> None"
    have "T a b \<longleftrightarrow> the (edge.log_index a) \<le> the (edge.log_index b)" if "a \<in> S" "b \<in> S" for a b
      using all that by (simp add: T_def)
    then show ?thesis by (rule that)
  next
    assume none: "\<forall>e\<in>S. edge.log_index e = None"
    have "T a b \<longleftrightarrow> edge.timestamp a \<le> edge.timestamp b" if "a \<in> S" "b \<in> S" for a b
      using none that by (simp add: T_def)
    then show ?thesis by (rule that)
  qed
  have R_tot: "R a b \<or> R b a" if m: "a \<in> S" "b \<in> S" for a b
  proof (cases "has_tx_hash a \<and> has_tx_hash b \<and> edge.tx_hash a \<noteq> edge.tx_hash b")
    case True
    then have "R a b \<longleftrightarrow> lc (tx a) (tx b) \<le> 0" "R b a \<longleftrightarrow> lc (tx b) (tx a) \<le> 0"
      by (auto simp: R_def tx_def)
    with lc_tot [of "tx a" "tx b"] show ?thesis by blast
  next
    case False
    then have "R a b \<longleftrightarrow> T a b" "R b a \<longleftrightarrow> T b a" by (auto simp: R_def)
    with T [OF m] T [OF m(2,1)] show ?thesis by linarith
  qed
  have R_tr: "R a c" if m: "a \<in> S" "b \<in> S" "c \<in> S" and ab: "R a b" and bc: "R b c" for a b c
  proof (cases "\<forall>e\<in>S. has_tx_hash e")
    case False
    with utx have no: "\<forall>e\<in>S. \<not> has_tx_hash e" by blast
    with m have "R a b \<longleftrightarrow> T a b" "R b c \<longleftrightarrow> T b c" "R a c \<longleftrightarrow> T a c"
      by (simp_all add: R_def)
    with ab bc T [OF m(1,2)] T [OF m(2,3)] T [OF m(1,3)] show ?thesis by linarith
  next
    case True
    with m have h: "has_tx_hash a" "has_tx_hash b" "has_tx_hash c" by auto
    have inj: "edge.tx_hash x = edge.tx_hash y \<longleftrightarrow> tx x = tx y"
      if "has_tx_hash x" "has_tx_hash y" for x y
      using that by (auto simp: has_tx_hash_def tx_def split: option.splits)
    have Rxy: "R x y \<longleftrightarrow> (if tx x \<noteq> tx y then lc (tx x) (tx y) \<le> 0 else f x \<le> f y)"
      if "x \<in> S" "y \<in> S" for x y
    proof -
      from True that have "has_tx_hash x" "has_tx_hash y" by auto
      with inj [OF this] T [OF that] show ?thesis by (simp add: R_def tx_def)
    qed
    from ab bc have ab': "if tx a \<noteq> tx b then lc (tx a) (tx b) \<le> 0 else f a \<le> f b"
      and bc': "if tx b \<noteq> tx c then lc (tx b) (tx c) \<le> 0 else f b \<le> f c"
      by (simp_all only: Rxy [OF m(1,2)] Rxy [OF m(2,3)])
    have "if tx a \<noteq> tx c then lc (tx a) (tx c) \<le> 0 else f a \<le> f c"
    proof (cases "tx a = tx b")
      case eq_ab: True
      show ?thesis
      proof (cases "tx b = tx c")
        case True
        with eq_ab ab' bc' show ?thesis by simp
      next
        case False
        with eq_ab ab' bc' show ?thesis by simp
      qed
    next
      case ne_ab: False
      with ab' have l1: "lc (tx a) (tx b) \<le> 0" by simp
      show ?thesis
      proof (cases "tx b = tx c")
        case True
        with ne_ab l1 show ?thesis by simp
      next
        case False
        with bc' have l2: "lc (tx b) (tx c) \<le> 0" by simp
        from lc_tr [OF l1 l2] have l3: "lc (tx a) (tx c) \<le> 0" .
        have "tx a \<noteq> tx c"
        proof
          assume "tx a = tx c"
          with l2 have "lc (tx b) (tx a) \<le> 0" by simp
          from lc_anti [OF l1 this] ne_ab show False by simp
        qed
        with l3 show ?thesis by simp
      qed
    qed
    then show ?thesis by (simp only: Rxy [OF m(1,3)])
  qed
  have le: "edge_compare lc a b \<le> 0 \<longleftrightarrow>
      edge.block a < edge.block b \<or> (edge.block a = edge.block b \<and> R a b)" for a b
    by (simp only: R_def T_def edge_compare_le_iff)
  have "(\<forall>a\<in>S. \<forall>b\<in>S. edge_compare lc a b \<le> 0 \<or> edge_compare lc b a \<le> 0) \<and>
        (\<forall>a\<in>S. \<forall>b\<in>S. \<forall>c\<in>S.
           edge_compare lc a b \<le> 0 \<and> edge_compare lc b c \<le> 0 \<longrightarrow> edge_compare lc a c \<le> 0)"
  proof (rule lex_total_preorder [where S = S and R = R and k = edge.block
          and L = "\<lambda>a b. edge_compare lc a b \<le> 0"])
    show "R a b \<or> R b a" if "a \<in> S" "b \<in> S" for a b
      using that by (rule R_tot)
    show "R a c" if "a \<in> S" "b \<in> S" "c \<in> S" "R a b" "R b c" for a b c
      using that by (rule R_tr)
    show "edge_compare lc a b \<le> 0 \<longleftrightarrow>
      edge.block a < edge.block b \<or> (edge.block a = edge.block b \<and> R a b)" for a b
      by (rule le)
  qed
  then show ?thesis unfolding total_preorder_on_def S_def .
qed

lemma code_unit_compare_zero: "code_unit_compare s t = 0 \<longleftrightarrow> s = t"
  by (induction s t rule: code_unit_compare.induct) auto

lemma code_unit_compare_flip: "code_unit_compare t s = - code_unit_compare s t"
proof (induction s t rule: code_unit_compare.induct)
  case (4 x xs y ys)
  have "(of_char x :: nat) < of_char y \<or> (of_char y :: nat) < of_char x" if "x \<noteq> y"
    using that by (metis linorder_neqE_nat of_char_eq_iff)
  with 4 show ?case by auto
qed simp_all

lemma code_unit_compare_trans:
  "code_unit_compare s t \<le> 0 \<Longrightarrow> code_unit_compare t u \<le> 0 \<Longrightarrow> code_unit_compare s u \<le> 0"
proof (induction s t arbitrary: u rule: code_unit_compare.induct)
  case 1
  then show ?case by simp
next
  case (2 y ys)
  then show ?case by (cases u) simp_all
next
  case (3 x xs)
  then show ?case by simp
next
  case (4 x xs y ys)
  show ?case
  proof (cases u)
    case Nil
    with 4 show ?thesis by simp
  next
    case (Cons z zs)
    with "4.prems" "4.IH" [of zs] show ?thesis
      by (auto split: if_splits)
  qed
qed

lemma code_unit_compare_total_order: "total_order_collation code_unit_compare"
  unfolding total_order_collation_def
proof (intro conjI allI impI)
  fix s t
  from code_unit_compare_flip [of s t] show "code_unit_compare s t \<le> 0 \<or> code_unit_compare t s \<le> 0"
    by linarith
next
  fix s t u
  assume "code_unit_compare s t \<le> 0 \<and> code_unit_compare t u \<le> 0"
  then show "code_unit_compare s u \<le> 0" by (blast intro: code_unit_compare_trans)
next
  fix s t
  assume "code_unit_compare s t \<le> 0 \<and> code_unit_compare t s \<le> 0"
  with code_unit_compare_flip [of s t] have "code_unit_compare s t = 0" by linarith
  then show "s = t" by (simp add: code_unit_compare_zero)
qed

text \<open>Where the block ties and \<open>tx_hash\<close> does not decide, two edges that both carry a
  \<open>log_index\<close> are compared by it.\<close>

lemma edge_compare_log_index:
  "edge.block a = edge.block b \<Longrightarrow> \<not> tx_hash_decides a b \<Longrightarrow>
     edge.log_index a = Some i \<Longrightarrow> edge.log_index b = Some j \<Longrightarrow> edge_compare lc a b = i - j"
  by (auto simp: edge_compare_def compare_log_index_or_timestamp_def tx_hash_decides_def
      split: option.splits)

text \<open>The comparator and the four-key chain give the same number for every pair that
  does not tie on \<open>log_index\<close>, and for a tying pair with equal timestamps.\<close>

lemma edge_compare_composite:
  "\<not> log_index_tie a b \<or> edge.timestamp a = edge.timestamp b \<Longrightarrow>
     edge_compare lc a b = composite_key_compare lc a b"
  by (auto simp: edge_compare_def composite_key_compare_def compare_log_index_or_timestamp_def
      compare_log_index_then_timestamp_def log_index_tie_def tx_hash_decides_def
      split: option.splits if_splits)



text \<open>The edges of a wallet come out ordered by the comparator when it is a total
  preorder on them.\<close>

lemma buildAuthorityGraph_sorted:
  assumes "buildAuthorityGraph nts lc (Array evs) = Inr graphs" and "(w, g) \<in> set graphs"
    and "total_preorder_on (edge_compare lc) (edges_for nts w evs)"
  shows "sorted_wrt (\<lambda>a b. edge_compare lc a b \<le> 0) (authority_edges g)"
  using buildAuthorityGraph_graph [OF assms(1,2)] sorted_array_sort [OF assms(3)] by simp


section \<open>Example runs\<close>

lemma normalizeAmount_100: "normalizeAmount nts (Val (Str ''100'')) = ''100''"
  by (simp add: normalizeAmount_def String_def toUpperCase_def upper_char_def MAX_UINT256_def)

lemma build_edge_approval:
  "w \<noteq> [] \<Longrightarrow> build_edge nts (approval w b ts tx li) =
     Inr (w, approval_edge b ts (optional_tx_hash tx) (optional_log_index li))"
  by (simp add: build_edge_def approval_def approval_edge_def bind_def required_def
      required_number_def normalizeAmount_100)

lemmas eval_defs = buildAuthorityGraph_def build_edge_approval get_property_def
  object_prototype_keys_def optional_tx_hash_def optional_log_index_def edge_compare_def
  compare_log_index_or_timestamp_def approval_edge_def

lemma two_wallets:
  "buildAuthorityGraph nts lc (Array
     [approval ''0xABC'' 103 1712345690 Undefined Undefined,
      approval ''0xABC'' 101 1712345670 Undefined Undefined,
      approval ''0xDEF'' 102 1712345680 Undefined Undefined]) =
   Inr [(''0xABC'', \<lparr>wallet = ''0xABC'', authority_edges =
           [approval_edge 101 1712345670 None None, approval_edge 103 1712345690 None None]\<rparr>),
        (''0xDEF'', \<lparr>wallet = ''0xDEF'', authority_edges =
           [approval_edge 102 1712345680 None None]\<rparr>)]"
  by (simp add: eval_defs)

lemma one_wallet:
  "buildAuthorityGraph nts lc (Array
     [approval ''0xABC'' 103 1712345690 Undefined Undefined,
      approval ''0xABC'' 101 1712345670 Undefined Undefined]) =
   Inr [(''0xABC'', \<lparr>wallet = ''0xABC'', authority_edges =
           [approval_edge 101 1712345670 None None, approval_edge 103 1712345690 None None]\<rparr>)]"
  by (simp add: eval_defs)


lemma empty_tx_hash_run:
  "buildAuthorityGraph nts lc (Array [approval ''0xABC'' 100 1712345678 (Val []) Undefined]) =
   Inr [(''0xABC'', \<lparr>wallet = ''0xABC'', authority_edges =
           [approval_edge 100 1712345678 None None]\<rparr>)]"
  by (simp add: eval_defs)

text \<open>Two events of one block: \<open>log_index\<close> 1 with timestamp 1, then \<open>log_index\<close> 0 with
  timestamp 9. The second is emitted first.\<close>

lemma zero_log_index_first_run:
  "buildAuthorityGraph nts lc (Array
     [approval ''0xABC'' 100 1 Undefined (Val 1),
      approval ''0xABC'' 100 9 Undefined (Val 0)]) =
   Inr [(''0xABC'', \<lparr>wallet = ''0xABC'', authority_edges =
           [approval_edge 100 9 None (Some 0), approval_edge 100 1 None (Some 1)]\<rparr>)]"
  by (simp add: eval_defs)

lemma edges_for_zero_log_index_first:
  "edges_for nts ''0xABC''
     [approval ''0xABC'' 100 1 Undefined (Val 1),
      approval ''0xABC'' 100 9 Undefined (Val 0)] =
   [approval_edge 100 1 None (Some 1), approval_edge 100 9 None (Some 0)]"
  by (simp add: build_edge_approval optional_tx_hash_def optional_log_index_def)

text \<open>Two events of one block with the same \<open>log_index\<close> and timestamps 5 and 3, in this
  order: the comparator ties them and they stay as they are.\<close>

lemma log_index_tie_run:
  "buildAuthorityGraph nts lc (Array
     [approval ''0xABC'' 100 5 Undefined (Val 0),
      approval ''0xABC'' 100 3 Undefined (Val 0)]) =
   Inr [(''0xABC'', \<lparr>wallet = ''0xABC'', authority_edges =
           [approval_edge 100 5 None (Some 0), approval_edge 100 3 None (Some 0)]\<rparr>)]"
  by (simp add: eval_defs)


lemma incomplete_only_contract: "incomplete only_contract"
  by (simp add: incomplete_def only_contract_def empty_or_null_def)

lemma missing_wallet_alone:
  "buildAuthorityGraph nts lc (Array [only_contract]) = Inl (missing_field ''wallet'')"
  by (simp add: buildAuthorityGraph_def build_edge_def bind_def required_def only_contract_def)

text \<open>Block 0 and timestamp 0 pass validation.\<close>

lemma block_zero_accepted:
  "buildAuthorityGraph nts lc (Array [approval ''0xABC'' 0 0 Undefined Undefined]) =
   Inr [(''0xABC'', \<lparr>wallet = ''0xABC'', authority_edges = [approval_edge 0 0 None None]\<rparr>)]"
  by (simp add: eval_defs)

section \<open>Properties of the builder\<close>

subsection \<open>Order of the edges of a wallet\<close>


text \<open>The same for every list with these three edges, and every collation: no arrangement
  is non-decreasing under the four-key chain, so no way of sorting them could meet the
  claim.\<close>

lemma sorted_wrt_order:
  assumes "sorted_wrt R p" and "x \<in> set p" and "y \<in> set p" and "\<not> R y x" and "x \<noteq> y"
  obtains i j where "i < j" and "j < length p" and "p ! i = x" and "p ! j = y"
proof -
  from assms(2,3) obtain i j where i: "i < length p" "p ! i = x" and j: "j < length p" "p ! j = y"
    by (auto simp: in_set_conv_nth)
  have "\<not> j < i"
  proof
    assume "j < i"
    with assms(1) i(1) have "R (p ! j) (p ! i)" by (simp add: sorted_wrt_iff_nth_less)
    with i j assms(4) show False by simp
  qed
  moreover from i j assms(5) have "i \<noteq> j" by auto
  ultimately have "i < j" by simp
  with j i that show ?thesis by blast
qed

lemma cycle_has_no_order:
  assumes "mset p = mset [approval_edge 100 3 None (Some 0), approval_edge 100 1 None (Some 1),
        approval_edge 100 2 None None]"
  shows "\<not> non_decreasing lc p"
proof
  let ?A = "approval_edge 100 3 None (Some 0)"
  let ?B = "approval_edge 100 1 None (Some 1)"
  let ?C = "approval_edge 100 2 None None"
  let ?R = "\<lambda>a b. composite_key_compare lc a b \<le> 0"
  assume "non_decreasing lc p"
  then have s: "sorted_wrt ?R p" by (simp add: non_decreasing_def)
  have ne: "?A \<noteq> ?B" "?B \<noteq> ?C" "?C \<noteq> ?A" by (simp_all add: approval_edge_def)
  from mset_eq_setD [OF assms] have mem: "?A \<in> set p" "?B \<in> set p" "?C \<in> set p"
    by simp_all
  from ne have "distinct [?A, ?B, ?C]" by auto
  with mset_eq_imp_distinct_iff [OF assms] have "distinct p" by blast
  have nBA: "\<not> ?R ?B ?A" and nCB: "\<not> ?R ?C ?B" and nAC: "\<not> ?R ?A ?C"
    by (simp_all add: composite_key_compare_def compare_log_index_then_timestamp_def approval_edge_def)
  from sorted_wrt_order [OF s mem(1) mem(2) nBA ne(1)]
  obtain a b where ab: "a < b" "b < length p" "p ! a = ?A" "p ! b = ?B" by blast
  from sorted_wrt_order [OF s mem(2) mem(3) nCB ne(2)]
  obtain b' c where bc: "b' < c" "c < length p" "p ! b' = ?B" "p ! c = ?C" by blast
  from sorted_wrt_order [OF s mem(3) mem(1) nAC ne(3)]
  obtain c' a' where ca: "c' < a'" "a' < length p" "p ! c' = ?C" "p ! a' = ?A" by blast
  have same: "i = j" if "i < length p" "j < length p" "p ! i = p ! j" for i j
    using \<open>distinct p\<close> that by (simp add: nth_eq_iff_index_eq)
  from ab bc have "b = b'" by (intro same) simp_all
  moreover from bc ca have "c = c'" by (intro same) simp_all
  moreover from ab ca have "a = a'" by (intro same) simp_all
  ultimately show False using ab(1) bc(1) ca(1) by simp
qed

text \<open>
  Apart from that, the comparator has a defect: its \<open>log_index\<close> step returns the
  difference also when it is 0, where the block and the \<open>tx_hash\<close> step go on to the next
  key. Two edges that tie on \<open>log_index\<close> are therefore never ordered by timestamp; here
  they are emitted with timestamps 5 and 3, in this order.
\<close>

lemma log_index_tie_ignores_timestamp:
  "buildAuthorityGraph decimal code_unit_compare (Array
     [approval ''0xABC'' 100 5 Undefined (Val 0),
      approval ''0xABC'' 100 3 Undefined (Val 0)]) =
   Inr [(''0xABC'', \<lparr>wallet = ''0xABC'', authority_edges =
           [approval_edge 100 5 None (Some 0), approval_edge 100 3 None (Some 0)]\<rparr>)] \<and>
   \<not> non_decreasing code_unit_compare
       [approval_edge 100 5 None (Some 0), approval_edge 100 3 None (Some 0)]"
  by (simp add: log_index_tie_run non_decreasing_def composite_key_compare_def
      compare_log_index_then_timestamp_def approval_edge_def)



text \<open>
  Without the condition on ties: when the comparator is a total preorder on the edges of
  a wallet, every two emitted edges are in the order of the four-key chain or tie on
  \<open>log_index\<close>.
\<close>

lemma edges_sorted_up_to_ties:
  assumes "buildAuthorityGraph nts lc (Array evs) = Inr graphs" and "(w, g) \<in> set graphs"
    and "total_preorder_on (edge_compare lc) (edges_for nts w evs)"
  shows "sorted_wrt (\<lambda>a b. composite_key_compare lc a b \<le> 0 \<or> log_index_tie a b)
           (authority_edges g)"
proof -
  have "composite_key_compare lc a b \<le> 0 \<or> log_index_tie a b"
    if "edge_compare lc a b \<le> 0" for a b
    using that edge_compare_composite [of a b lc] by auto
  with buildAuthorityGraph_sorted [OF assms] show ?thesis
    by (rule sorted_wrt_mono_rel [rotated])
qed

subsection \<open>Lossless partition\<close>

lemma sum_list_indicator:
  "distinct ws \<Longrightarrow> a \<in> set ws \<Longrightarrow> sum_list (map (\<lambda>w. if a = w then 1 else 0) ws) = (1::nat)"
proof (induction ws)
  case Nil
  then show ?case by simp
next
  case (Cons w ws)
  show ?case
  proof (cases "a = w")
    case True
    with Cons.prems have "a \<notin> set ws" by simp
    then have "sum_list (map (\<lambda>w. if a = w then 1 else 0) ws) = (0::nat)"
      by (induction ws) auto
    with True show ?thesis by simp
  next
    case False
    with Cons show ?thesis by simp
  qed
qed

lemma sum_list_classes:
  "distinct ws \<Longrightarrow> \<forall>x\<in>set xs. f x \<in> set ws \<Longrightarrow>
     sum_list (map (\<lambda>w. length [x\<leftarrow>xs. f x = w]) ws) = length xs"
proof (induction xs)
  case Nil
  then show ?case by simp
next
  case (Cons x xs)
  have "sum_list (map (\<lambda>w. length [y\<leftarrow>x # xs. f y = w]) ws) =
        sum_list (map (\<lambda>w. (if f x = w then 1 else 0) + length [y\<leftarrow>xs. f y = w]) ws)"
    by (intro arg_cong [where f = sum_list] map_cong) auto
  also have "\<dots> = sum_list (map (\<lambda>w. if f x = w then 1 else 0) ws) +
                   sum_list (map (\<lambda>w. length [y\<leftarrow>xs. f y = w]) ws)"
    by (simp add: sum_list_addf)
  also have "\<dots> = 1 + length xs"
    using Cons by (simp add: sum_list_indicator)
  finally show ?case by simp
qed

text \<open>
  C3. When the builder succeeds the output is a lossless partition of the input: the
  wallet keys are distinct, every event's wallet is one of them, the edges under a key
  are, up to order, exactly the edges built one for one from the events with that wallet,
  and the edge counts of all wallets add up to the number of events.
\<close>

theorem lossless_partition:
  assumes "buildAuthorityGraph nts lc (Array evs) = Inr graphs"
  shows "distinct (map fst graphs) \<and>
         (\<forall>ev\<in>set evs. \<exists>w. event.wallet ev = Val w \<and> w \<in> fst ` set graphs) \<and>
         (\<forall>(w, g)\<in>set graphs.
            wallet_graph.wallet g = w \<and>
            mset (authority_edges g) = mset (edges_for nts w evs) \<and>
            list_all2 (\<lambda>ev e. build_edge nts ev = Inr (w, e))
              [ev\<leftarrow>evs. event.wallet ev = Val w] (edges_for nts w evs)) \<and>
         sum_list (map (\<lambda>(w, g). length (authority_edges g)) graphs) = length evs"
proof (cases "evs = []")
  case True
  with assms show ?thesis by (simp add: buildAuthorityGraph_def)
next
  case False
  with assms obtain groups where gr: "group_events nts evs [] = Inr groups"
    and graphs: "graphs = map (\<lambda>(w, edges).
        (w, \<lparr> wallet = w, authority_edges = array_sort (edge_compare lc) edges \<rparr>)) groups"
    by (auto simp: buildAuthorityGraph_def split: sum.splits)
  have keys: "map fst graphs = map fst groups"
    unfolding graphs by (induction groups) auto
  from gr have d: "distinct (map fst graphs)"
    unfolding keys by (rule group_events_distinct) simp
  have built: "\<forall>ev\<in>set evs. \<exists>w e. build_edge nts ev = Inr (w, e)"
    using group_events_complete [OF gr] by blast
  have cover: "\<exists>w. event.wallet ev = Val w \<and> w \<in> fst ` set graphs" if "ev \<in> set evs" for ev
  proof -
    from built that obtain w e where "build_edge nts ev = Inr (w, e)" by blast
    then have w: "event.wallet ev = Val w" by (simp add: build_edge_wallet)
    with that have "w \<in> set (map fst groups)"
      unfolding group_events_keys [OF gr] by auto
    with w keys show ?thesis by (metis set_map)
  qed
  have per_key: "wallet_graph.wallet g = w \<and>
            mset (authority_edges g) = mset (edges_for nts w evs) \<and>
            list_all2 (\<lambda>ev e. build_edge nts ev = Inr (w, e))
              [ev\<leftarrow>evs. event.wallet ev = Val w] (edges_for nts w evs)" if "(w, g) \<in> set graphs" for w g
    using buildAuthorityGraph_graph [OF assms that] edges_for_events [OF built, of w]
    by (simp add: mset_array_sort)
  have len: "length (authority_edges g) = length [ev\<leftarrow>evs. event.wallet ev = Val w]"
    if "(w, g) \<in> set graphs" for w g
  proof -
    from per_key [OF that] have "length (authority_edges g) = length (edges_for nts w evs)"
      by (metis size_mset)
    with per_key [OF that] show ?thesis by (auto dest: list_all2_lengthD)
  qed
  have "sum_list (map (\<lambda>(w, g). length (authority_edges g)) graphs) =
        sum_list (map (\<lambda>(w, g). length [ev\<leftarrow>evs. event.wallet ev = Val w]) graphs)"
    by (intro arg_cong [where f = sum_list] map_cong) (auto simp: len)
  also have "\<dots> = sum_list (map (\<lambda>k. length [ev\<leftarrow>evs. event.wallet ev = k]) (map (Val \<circ> fst) graphs))"
    by (simp add: comp_def case_prod_unfold)
  also have "\<dots> = length evs"
  proof (rule sum_list_classes)
    from d show "distinct (map (Val \<circ> fst) graphs)"
      by (simp add: distinct_map inj_on_def flip: map_map)
    from cover show "\<forall>ev\<in>set evs. event.wallet ev \<in> set (map (Val \<circ> fst) graphs)"
      by force
  qed
  finally have total: "sum_list (map (\<lambda>(w, g). length (authority_edges g)) graphs) = length evs" .
  from d cover per_key total show ?thesis by blast
qed

theorem lossless_partition_witness:
  "distinct (map fst [(''0xABC'', \<lparr>wallet = ''0xABC'', authority_edges =
           [approval_edge 101 1712345670 None None, approval_edge 103 1712345690 None None]\<rparr>),
        (''0xDEF'', \<lparr>wallet = ''0xDEF'', authority_edges =
           [approval_edge 102 1712345680 None None]\<rparr>)]) \<and>
   mset [approval_edge 101 1712345670 None None, approval_edge 103 1712345690 None None] =
     mset (edges_for decimal ''0xABC''
       [approval ''0xABC'' 103 1712345690 Undefined Undefined,
        approval ''0xABC'' 101 1712345670 Undefined Undefined,
        approval ''0xDEF'' 102 1712345680 Undefined Undefined])"
  using lossless_partition [OF two_wallets [where nts = decimal and lc = code_unit_compare]] by simp

subsection \<open>Validation\<close>

text \<open>
  C4 says that the builder fails with the missing-field error exactly when some event is
  incomplete. The code breaks this when an earlier, complete event has a wallet that names
  a property inherited from \<open>Object.prototype\<close>: grouping that event throws a
  \<open>TypeError\<close> before the incomplete event is reached.
\<close>

theorem inherited_wallet_key_throws:
  "buildAuthorityGraph decimal code_unit_compare
     (Array [approval ''constructor'' 100 1712345678 Undefined Undefined, only_contract]) =
     Inl (TypeError ''walletGroups[wallet].push is not a function'') \<and>
   incomplete (only_contract :: int event)"
  by (simp add: incomplete_only_contract buildAuthorityGraph_def build_edge_approval
      get_property_def object_prototype_keys_def)

text \<open>
  C7. The builder fails with the invalid-input error exactly when its argument is not an
  array, and the empty array gives the empty mapping.
\<close>

theorem invalid_input_iff_not_array:
  "(buildAuthorityGraph nts lc events = Inl (Error ''Input must be an array of events'')
      \<longleftrightarrow> (\<nexists>evs. events = Array evs)) \<and>
   buildAuthorityGraph nts lc (Array []) = Inr []"
proof -
  have "buildAuthorityGraph nts lc (Array evs) \<noteq> Inl (Error ''Input must be an array of events'')" for evs
  proof
    assume a: "buildAuthorityGraph nts lc (Array evs) = Inl (Error ''Input must be an array of events'')"
    then have "group_events nts evs [] = Inl (Error ''Input must be an array of events'')"
      by (auto simp: buildAuthorityGraph_def split: if_splits sum.splits)
    from group_events_Inl [OF this] show False by (auto simp: missing_field_def)
  qed
  then show ?thesis by (cases events) (auto simp: buildAuthorityGraph_def)
qed

theorem invalid_input_iff_not_array_witness:
  "buildAuthorityGraph decimal code_unit_compare (NonArray (Val (Str ''not an array''))) =
     Inl (Error ''Input must be an array of events'')"
  using invalid_input_iff_not_array [of decimal code_unit_compare "NonArray (Val (Str ''not an array''))"]
  by simp

subsection \<open>The single-wallet wrapper\<close>

text \<open>
  C5. \<open>buildSingleWalletGraph\<close> runs the builder and passes its failure on; on the empty
  mapping it fails with \<open>No events provided\<close>, on a mapping with more than one wallet with
  the multiple-wallets error, and otherwise it returns the sole wallet graph.
\<close>

theorem buildSingleWalletGraph_cases:
  "buildSingleWalletGraph nts lc events =
     (case buildAuthorityGraph nts lc events of
        Inl err \<Rightarrow> Inl err
      | Inr graphs \<Rightarrow>
          (case graphs of
             [] \<Rightarrow> Inl (Error ''No events provided'')
           | [(w, g)] \<Rightarrow> Inr (Some g)
           | _ \<Rightarrow> Inl (Error ''Multiple wallets detected. Use buildAuthorityGraph() for batch processing.'')))"
  by (auto simp: buildSingleWalletGraph_def Object_keys_def Let_def split: sum.splits list.splits)

theorem buildSingleWalletGraph_cases_witness:
  "buildSingleWalletGraph decimal code_unit_compare (Array
     [approval ''0xABC'' 103 1712345690 Undefined Undefined,
      approval ''0xABC'' 101 1712345670 Undefined Undefined]) =
   Inr (Some \<lparr>wallet = ''0xABC'', authority_edges =
           [approval_edge 101 1712345670 None None, approval_edge 103 1712345690 None None]\<rparr>)"
  using buildSingleWalletGraph_cases [of decimal code_unit_compare "Array
     [approval ''0xABC'' 103 1712345690 Undefined Undefined,
      approval ''0xABC'' 101 1712345670 Undefined Undefined]"]
  by (simp add: one_wallet)

subsection \<open>Fields of the edges\<close>

text \<open>
  C8. Every edge in the output of the builder has \<open>revocation_possible\<close> equal to
  \<open>UNKNOWN\<close>.
\<close>

theorem revocation_possible_unknown:
  assumes "buildAuthorityGraph nts lc events = Inr graphs"
    and "(w, g) \<in> set graphs" and "e \<in> set (authority_edges g)"
  shows "revocation_possible e = ''UNKNOWN''"
proof -
  from assms(1) obtain evs where evs: "events = Array evs"
    by (cases events) (simp_all add: buildAuthorityGraph_def)
  from buildAuthorityGraph_graph [OF assms(1) [unfolded evs] assms(2)] assms(3)
  have "e \<in> set (edges_for nts w evs)" by (simp add: set_array_sort)
  then obtain ev where "build_edge nts ev = Inr (w, e)" by (blast dest: edges_for_mem)
  then show ?thesis by (rule build_edge_revocation)
qed

theorem revocation_possible_unknown_witness:
  "revocation_possible (approval_edge 102 1712345680 None None) = ''UNKNOWN''"
  using revocation_possible_unknown [OF two_wallets [where nts = decimal and lc = code_unit_compare],
    of "''0xDEF''" "\<lparr>wallet = ''0xDEF'', authority_edges = [approval_edge 102 1712345680 None None]\<rparr>"
       "approval_edge 102 1712345680 None None"]
  by simp

text \<open>
  C9. An event whose \<open>tx_hash\<close> is the empty string yields an edge without \<open>tx_hash\<close>, the
  same edge as if the property were absent, and no comparison with that edge uses the
  \<open>tx_hash\<close> key.
\<close>

theorem empty_tx_hash_is_absent:
  assumes "buildAuthorityGraph nts lc (Array evs) = Inr graphs" and "ev \<in> set evs"
    and "event.tx_hash ev = Val []"
  shows "\<exists>w g e. (w, g) \<in> set graphs \<and> e \<in> set (authority_edges g) \<and>
           build_edge nts ev = Inr (w, e) \<and> edge.tx_hash e = None \<and>
           build_edge nts (ev\<lparr>event.tx_hash := Undefined\<rparr>) = Inr (w, e) \<and>
           (\<forall>b. edge_compare lc e b =
                  (if edge.block e \<noteq> edge.block b then edge.block e - edge.block b
                   else compare_log_index_or_timestamp e b) \<and>
                edge_compare lc b e =
                  (if edge.block b \<noteq> edge.block e then edge.block b - edge.block e
                   else compare_log_index_or_timestamp b e))"
proof -
  from buildAuthorityGraph_edge [OF assms(1,2)] obtain w g e
    where mem: "(w, g) \<in> set graphs" "e \<in> set (authority_edges g)"
      and be: "build_edge nts ev = Inr (w, e)" by blast
  from be assms(3) have none: "edge.tx_hash e = None"
    unfolding build_edge_Inr by (auto simp: optional_tx_hash_def)
  from be assms(3) have "build_edge nts (ev\<lparr>event.tx_hash := Undefined\<rparr>) = Inr (w, e)"
    unfolding build_edge_Inr by (auto simp: optional_tx_hash_def)
  moreover from none have "edge_compare lc e b =
      (if edge.block e \<noteq> edge.block b then edge.block e - edge.block b
       else compare_log_index_or_timestamp e b)" for b
    by (rule edge_compare_no_tx_hash [OF disjI1])
  moreover from none have "edge_compare lc b e =
      (if edge.block b \<noteq> edge.block e then edge.block b - edge.block e
       else compare_log_index_or_timestamp b e)" for b
    by (rule edge_compare_no_tx_hash [OF disjI2])
  ultimately show ?thesis using mem be none by blast
qed

theorem empty_tx_hash_is_absent_witness:
  "\<exists>w g e. (w, g) \<in> set [(''0xABC'', \<lparr>wallet = ''0xABC'', authority_edges =
                 [approval_edge 100 1712345678 None None]\<rparr>)] \<and>
     e \<in> set (authority_edges g) \<and>
     build_edge decimal (approval ''0xABC'' 100 1712345678 (Val []) Undefined) = Inr (w, e) \<and>
     edge.tx_hash e = None"
proof -
  have "approval ''0xABC'' 100 1712345678 (Val []) Undefined
          \<in> set [approval ''0xABC'' 100 1712345678 (Val []) Undefined]"
    by simp
  moreover have "event.tx_hash (approval ''0xABC'' 100 1712345678 (Val []) Undefined) = Val []"
    by (simp add: approval_def)
  ultimately show ?thesis
    using empty_tx_hash_is_absent [OF empty_tx_hash_run [where nts = decimal and lc = code_unit_compare]] by blast
qed

text \<open>
  C10. An event whose \<open>log_index\<close> is 0 yields an edge with \<open>log_index\<close> 0, and the sort
  uses it. Against an edge of the same block with \<open>log_index\<close> \<open>j\<close>, the \<open>tx_hash\<close> key not
  applying, the comparator returns \<open>0 - j\<close>, not the difference of the timestamps. In the
  emitted sequence of a wallet on whose edges the comparator is a total preorder, the edge
  stands before every edge of its block that has a positive \<open>log_index\<close> and that \<open>tx_hash\<close>
  does not separate from it, whatever the timestamps and the input order.
\<close>

theorem zero_log_index_is_present:
  assumes "buildAuthorityGraph nts lc (Array evs) = Inr graphs" and "ev \<in> set evs"
    and "event.log_index ev = Val 0"
  shows "\<exists>w g e. (w, g) \<in> set graphs \<and> e \<in> set (authority_edges g) \<and>
           build_edge nts ev = Inr (w, e) \<and> edge.log_index e = Some 0 \<and>
           (\<forall>b j. edge.block b = edge.block e \<and> edge.log_index b = Some j \<and>
                  (edge.tx_hash b = None \<or> edge.tx_hash e = None \<or> edge.tx_hash b = edge.tx_hash e)
                \<longrightarrow> edge_compare lc e b = 0 - j \<and> edge_compare lc b e = j - 0) \<and>
           (total_preorder_on (edge_compare lc) (edges_for nts w evs) \<longrightarrow>
              (\<forall>i k j. i < length (authority_edges g) \<and> k < length (authority_edges g) \<and>
                   authority_edges g ! i = e \<and>
                   edge.block (authority_edges g ! k) = edge.block e \<and>
                   edge.log_index (authority_edges g ! k) = Some j \<and> 0 < j \<and>
                   \<not> tx_hash_decides (authority_edges g ! k) e
                 \<longrightarrow> i < k))"
proof -
  from buildAuthorityGraph_edge [OF assms(1,2)] obtain w g e
    where mem: "(w, g) \<in> set graphs" "e \<in> set (authority_edges g)"
      and be: "build_edge nts ev = Inr (w, e)" by blast
  from be assms(3) have zero: "edge.log_index e = Some 0"
    unfolding build_edge_Inr by (auto simp: optional_log_index_def)
  have cmp: "edge_compare lc e b = 0 - j \<and> edge_compare lc b e = j - 0"
    if "edge.block b = edge.block e" "edge.log_index b = Some j"
      "edge.tx_hash b = None \<or> edge.tx_hash e = None \<or> edge.tx_hash b = edge.tx_hash e" for b j
    using that zero
    by (auto simp: edge_compare_def compare_log_index_or_timestamp_def split: option.splits)
  have order: "i < k"
    if tp: "total_preorder_on (edge_compare lc) (edges_for nts w evs)"
      and i: "i < length (authority_edges g)" and k: "k < length (authority_edges g)"
      and at_i: "authority_edges g ! i = e"
      and blk: "edge.block (authority_edges g ! k) = edge.block e"
      and log: "edge.log_index (authority_edges g ! k) = Some j" and pos: "0 < j"
      and tx: "\<not> tx_hash_decides (authority_edges g ! k) e" for i k j
  proof (rule ccontr)
    assume "\<not> i < k"
    moreover have "k \<noteq> i"
    proof
      assume "k = i"
      with at_i log zero pos show False by simp
    qed
    ultimately have "k < i" by simp
    with buildAuthorityGraph_sorted [OF assms(1) mem(1) tp] i
    have "edge_compare lc (authority_edges g ! k) (authority_edges g ! i) \<le> 0"
      by (simp add: sorted_wrt_iff_nth_less)
    moreover from edge_compare_log_index [OF blk tx log zero]
    have "edge_compare lc (authority_edges g ! k) e = j - 0" .
    ultimately show False using at_i pos by simp
  qed
  from mem be zero cmp order show ?thesis by blast
qed

theorem zero_log_index_is_present_witness:
  "total_preorder_on (edge_compare code_unit_compare)
     [approval_edge 100 1 None (Some 1), approval_edge 100 9 None (Some 0)] \<and>
   (\<exists>w g e. (w, g) \<in> set [(''0xABC'', \<lparr>wallet = ''0xABC'', authority_edges =
                 [approval_edge 100 9 None (Some 0), approval_edge 100 1 None (Some 1)]\<rparr>)] \<and>
      build_edge decimal (approval ''0xABC'' 100 9 Undefined (Val 0)) = Inr (w, e) \<and>
      edge.log_index e = Some 0 \<and>
      (\<forall>i k j. i < length (authority_edges g) \<and> k < length (authority_edges g) \<and>
           authority_edges g ! i = e \<and>
           edge.block (authority_edges g ! k) = edge.block e \<and>
           edge.log_index (authority_edges g ! k) = Some j \<and> 0 < j \<and>
           \<not> tx_hash_decides (authority_edges g ! k) e
         \<longrightarrow> i < k))"
proof -
  have tp: "total_preorder_on (edge_compare code_unit_compare)
     [approval_edge 100 1 None (Some 1), approval_edge 100 9 None (Some 0)]"
    by (simp add: total_preorder_on_def edge_compare_def compare_log_index_or_timestamp_def
        approval_edge_def)
  note ef = edges_for_zero_log_index_first [where nts = decimal]
  have "approval ''0xABC'' 100 9 Undefined (Val 0)
          \<in> set [approval ''0xABC'' 100 1 Undefined (Val 1),
                 approval ''0xABC'' 100 9 Undefined (Val 0)]"
    by simp
  moreover have "event.log_index (approval ''0xABC'' 100 9 Undefined (Val 0)) = Val 0"
    by (simp add: approval_def)
  ultimately obtain w g e where
    mem: "(w, g) \<in> set [(''0xABC'', \<lparr>wallet = ''0xABC'', authority_edges =
                 [approval_edge 100 9 None (Some 0), approval_edge 100 1 None (Some 1)]\<rparr>)]"
    and be: "build_edge decimal (approval ''0xABC'' 100 9 Undefined (Val 0)) = Inr (w, e)"
    and zero: "edge.log_index e = Some 0"
    and ord: "total_preorder_on (edge_compare code_unit_compare)
            (edges_for decimal w
              [approval ''0xABC'' 100 1 Undefined (Val 1),
               approval ''0xABC'' 100 9 Undefined (Val 0)]) \<longrightarrow>
          (\<forall>i k j. i < length (authority_edges g) \<and> k < length (authority_edges g) \<and>
               authority_edges g ! i = e \<and>
               edge.block (authority_edges g ! k) = edge.block e \<and>
               edge.log_index (authority_edges g ! k) = Some j \<and> 0 < j \<and>
               \<not> tx_hash_decides (authority_edges g ! k) e
             \<longrightarrow> i < k)"
    using zero_log_index_is_present
      [OF zero_log_index_first_run [where nts = decimal and lc = code_unit_compare]]
    by blast
  from mem have w: "w = ''0xABC''" by simp
  from tp have "total_preorder_on (edge_compare code_unit_compare)
            (edges_for decimal w
              [approval ''0xABC'' 100 1 Undefined (Val 1),
               approval ''0xABC'' 100 9 Undefined (Val 0)])"
    unfolding w ef .
  with ord mem be zero tp show ?thesis by blast
qed

end
